theory Spec2Isabelle
  imports Main "HOL-Library.Multiset"
begin

section \<open>The container of \<^verbatim>\<open>parallelStack.cpp\<close>\<close>

text \<open>
  \<^verbatim>\<open>threadsafe_stack<T>\<close> holds a \<^verbatim>\<open>std::stack<T> data\<close> and a
  \<^verbatim>\<open>std::shared_mutex m\<close>. The sequential content of the adaptor is a list whose
  head is the top: \<^verbatim>\<open>data.push(x)\<close> and \<^verbatim>\<open>data.emplace(x)\<close> put \<open>x\<close> in front,
  \<^verbatim>\<open>data.top()\<close> is \<open>hd\<close>, \<^verbatim>\<open>data.pop()\<close> is \<open>tl\<close>, \<^verbatim>\<open>data.empty()\<close> is \<open>= []\<close>.
  The source only calls \<^verbatim>\<open>top\<close> and \<^verbatim>\<open>pop\<close> behind the \<^verbatim>\<open>data.empty()\<close> test,
  and the model keeps that test, so \<open>hd\<close> and \<open>tl\<close> are never read on \<open>[]\<close>.

  Every member function takes the mutex in its first statement and releases it when
  the lock object goes out of scope, on each return path. Between two calls of one
  thread the mutex is therefore always free, and a call is one atomic step on
  \<open>data\<close>; the record below is the state between calls. What several threads do
  with the mutex is outside this model.
\<close>

record 'a threadsafe_stack =
  data :: "'a list"

text \<open>
  \<^verbatim>\<open>std::make_shared<T>(std::move(data.top()))\<close>: a fresh, never null handle that
  owns the value moved out of the top element.
\<close>

datatype 'a shared_ptr = make_shared (deref: 'a)

text \<open>\<^verbatim>\<open>threadsafe_stack() noexcept = default\<close>: the members are default-constructed.\<close>

definition threadsafe_stack_default :: "'a threadsafe_stack" where
  "threadsafe_stack_default = \<lparr>data = []\<rparr>"

text \<open>
  \<^verbatim>\<open>threadsafe_stack(const threadsafe_stack& other)\<close>: \<^verbatim>\<open>data = other.data\<close> under a
  shared lock of \<^verbatim>\<open>other.m\<close>; the new object's own mutex is default-constructed.
\<close>

definition threadsafe_stack_copy :: "'a threadsafe_stack \<Rightarrow> 'a threadsafe_stack" where
  "threadsafe_stack_copy other = \<lparr>data = data other\<rparr>"

definition push :: "'a threadsafe_stack \<Rightarrow> 'a \<Rightarrow> 'a threadsafe_stack" where
  "push s new_value = s\<lparr>data := new_value # data s\<rparr>"

definition emplace :: "'a threadsafe_stack \<Rightarrow> 'a \<Rightarrow> 'a threadsafe_stack" where
  "emplace s new_value = s\<lparr>data := new_value # data s\<rparr>"

text \<open>
  \<^verbatim>\<open>std::optional<std::shared_ptr<T>> pop()\<close> returns its result together with the
  new state. \<open>None\<close> is \<^verbatim>\<open>std::nullopt\<close>. The function has no \<^verbatim>\<open>throw\<close>; the
  \<^verbatim>\<open>empty_stack\<close> exception type of the file is declared and never raised.
\<close>

definition pop :: "'a threadsafe_stack \<Rightarrow> 'a shared_ptr option \<times> 'a threadsafe_stack" where
  "pop s =
     (if data s = [] then (None, s)
      else let res = make_shared (hd (data s));
               s' = s\<lparr>data := tl (data s)\<rparr>
           in (Some res, s'))"

text \<open>
  \<^verbatim>\<open>std::optional<T> pop(T& value)\<close>: the caller's object behind the reference is
  an argument and a result of the model. The triple is the returned optional, the
  caller's object after the call, and the new state. \<^verbatim>\<open>return value;\<close> builds the
  optional from the object just assigned.
\<close>

definition pop_out :: "'a threadsafe_stack \<Rightarrow> 'a \<Rightarrow> 'a option \<times> 'a \<times> 'a threadsafe_stack" where
  "pop_out s val =
     (if data s = [] then (None, val, s)
      else let val' = hd (data s);
               s' = s\<lparr>data := tl (data s)\<rparr>
           in (Some val', val', s'))"

definition empty :: "'a threadsafe_stack \<Rightarrow> bool" where
  "empty s = (data s = [])"

section \<open>Sequences of calls on one object\<close>

text \<open>
  A single-threaded client is a list of calls; \<open>run\<close> performs them in order and
  collects what each one returned.
\<close>

datatype 'a call = Push 'a | Emplace 'a | Pop | Pop_out 'a | Empty

datatype 'a ret =
    Ret_void
  | Ret_pop "'a shared_ptr option"
  | Ret_pop_out "'a option" 'a
  | Ret_empty bool

fun invoke :: "'a threadsafe_stack \<Rightarrow> 'a call \<Rightarrow> 'a ret \<times> 'a threadsafe_stack" where
  "invoke s (Push v) = (Ret_void, push s v)"
| "invoke s (Emplace v) = (Ret_void, emplace s v)"
| "invoke s Pop = (case pop s of (r, s') \<Rightarrow> (Ret_pop r, s'))"
| "invoke s (Pop_out v) = (case pop_out s v of (r, v', s') \<Rightarrow> (Ret_pop_out r v', s'))"
| "invoke s Empty = (Ret_empty (empty s), s)"

fun run :: "'a threadsafe_stack \<Rightarrow> 'a call list \<Rightarrow> 'a ret list \<times> 'a threadsafe_stack" where
  "run s [] = ([], s)"
| "run s (c # cs) =
     (case invoke s c of (r, s1) \<Rightarrow>
        case run s1 cs of (rs, s2) \<Rightarrow> (r # rs, s2))"

text \<open>
  Counting: \<^verbatim>\<open>push\<close> and \<^verbatim>\<open>emplace\<close> return \<^verbatim>\<open>void\<close> and have no failing path, so
  each such call is a successful push; a pop succeeded when its optional is present.
\<close>

fun is_push :: "'a call \<Rightarrow> bool" where
  "is_push (Push v) = True"
| "is_push (Emplace v) = True"
| "is_push c = False"

fun pop_succeeded :: "'a ret \<Rightarrow> bool" where
  "pop_succeeded (Ret_pop (Some p)) = True"
| "pop_succeeded (Ret_pop_out (Some x) v) = True"
| "pop_succeeded r = False"

definition pushes :: "'a call list \<Rightarrow> nat" where
  "pushes cs = length (filter is_push cs)"

definition pops :: "'a ret list \<Rightarrow> nat" where
  "pops rs = length (filter pop_succeeded rs)"

text \<open>The values a sequence of calls hands to the container, and the values its results hand back.\<close>

fun pushed_values :: "'a call list \<Rightarrow> 'a list" where
  "pushed_values [] = []"
| "pushed_values (Push v # cs) = v # pushed_values cs"
| "pushed_values (Emplace v # cs) = v # pushed_values cs"
| "pushed_values (c # cs) = pushed_values cs"

fun popped_values :: "'a ret list \<Rightarrow> 'a list" where
  "popped_values [] = []"
| "popped_values (Ret_pop (Some p) # rs) = deref p # popped_values rs"
| "popped_values (Ret_pop_out (Some x) v # rs) = x # popped_values rs"
| "popped_values (r # rs) = popped_values rs"

section \<open>Several objects\<close>

text \<open>
  Objects live in a store and are named by their address (the index). Copy
  construction makes a new object; a member call changes the object it is called on.
  A call through an address that names no object has no result.
\<close>

type_synonym 'a store = "'a threadsafe_stack list"

definition construct_copy :: "'a store \<Rightarrow> nat \<Rightarrow> (nat \<times> 'a store) option" where
  "construct_copy st other =
     (if other < length st
      then Some (length st, st @ [threadsafe_stack_copy (st ! other)])
      else None)"

definition invoke_at :: "'a store \<Rightarrow> nat \<Rightarrow> 'a call \<Rightarrow> ('a ret \<times> 'a store) option" where
  "invoke_at st this c =
     (if this < length st
      then (case invoke (st ! this) c of (r, s') \<Rightarrow> Some (r, st[this := s']))
      else None)"

fun run_at :: "'a store \<Rightarrow> nat \<Rightarrow> 'a call list \<Rightarrow> ('a ret list \<times> 'a store) option" where
  "run_at st this [] = Some ([], st)"
| "run_at st this (c # cs) =
     (case invoke_at st this c of
        None \<Rightarrow> None
      | Some (r, st1) \<Rightarrow>
          (case run_at st1 this cs of
             None \<Rightarrow> None
           | Some (rs, st2) \<Rightarrow> Some (r # rs, st2)))"

section \<open>Basic facts\<close>

lemma data_push: "data (push s v) = v # data s"
  by (simp add: push_def)

lemma pop_Nil: "data s = [] \<Longrightarrow> pop s = (None, s)"
  by (simp add: pop_def)

lemma pop_Cons: "data s = x # xs \<Longrightarrow> pop s = (Some (make_shared x), s\<lparr>data := xs\<rparr>)"
  by (simp add: pop_def)

lemma pop_out_Nil: "data s = [] \<Longrightarrow> pop_out s v = (None, v, s)"
  by (simp add: pop_out_def)

lemma pop_out_Cons: "data s = x # xs \<Longrightarrow> pop_out s v = (Some x, x, s\<lparr>data := xs\<rparr>)"
  by (simp add: pop_out_def)

lemma run_append:
  "run s (cs @ ds) = (fst (run s cs) @ fst (run (snd (run s cs)) ds), snd (run (snd (run s cs)) ds))"
  by (induction cs arbitrary: s) (simp_all add: split_def)

lemma run_pushes:
  "run s (map Push vs) = (replicate (length vs) Ret_void, s\<lparr>data := rev vs @ data s\<rparr>)"
proof (induction vs arbitrary: s)
  case Nil
  show ?case by simp
next
  case (Cons v vs)
  show ?case by (simp add: Cons.IH push_def)
qed

lemma run_pops:
  "run s (replicate n Pop) =
     (map Ret_pop (map (\<lambda>x. Some (make_shared x)) (take n (data s))
                   @ replicate (n - length (data s)) None),
      s\<lparr>data := drop n (data s)\<rparr>)"
proof (induction n arbitrary: s)
  case 0
  show ?case by simp
next
  case (Suc n)
  show ?case
  proof (cases "data s")
    case Nil
    then show ?thesis by (simp add: pop_Nil Suc.IH)
  next
    case (Cons x xs)
    then show ?thesis by (simp add: pop_Cons Suc.IH)
  qed
qed

lemma run_pop_outs_Nil:
  "data s = [] \<Longrightarrow> run s (map Pop_out vs) = (map (Ret_pop_out None) vs, s)"
  by (induction vs) (simp_all add: pop_out_Nil)

section \<open>LIFO order\<close>

text \<open>
  Claim C1. Push \<open>v1, ..., vn\<close> into a default-constructed stack, with no pop in
  between, then call \<^verbatim>\<open>pop()\<close> \<open>n + 1\<close> times: the first \<open>n\<close> results are present and
  carry \<open>vn, ..., v1\<close> in that order, the last one is absent, and the stack is empty
  again.
\<close>

theorem lifo_order:
  "run threadsafe_stack_default (map Push vs @ replicate (Suc (length vs)) Pop) =
     (replicate (length vs) Ret_void
        @ map (\<lambda>v. Ret_pop (Some (make_shared v))) (rev vs)
        @ [Ret_pop None],
      threadsafe_stack_default)"
  by (simp only: run_append run_pushes run_pops)
     (simp add: threadsafe_stack_default_def comp_def)

text \<open>The scenario of the specification, with a push between the pops.\<close>

lemma scenario_10_20_30:
  "fst (run threadsafe_stack_default [Push (10::int), Push 20, Pop, Push 30, Pop, Pop, Pop]) =
     [Ret_void, Ret_void, Ret_pop (Some (make_shared 20)), Ret_void,
      Ret_pop (Some (make_shared 30)), Ret_pop (Some (make_shared 10)), Ret_pop None]"
  by (simp add: threadsafe_stack_default_def push_def pop_def)

section \<open>Popping an empty stack\<close>

text \<open>
  Claim C2. On an empty stack \<^verbatim>\<open>pop()\<close> and \<^verbatim>\<open>pop(out)\<close> both return the absent
  result by an ordinary return and leave the stack as it was; any number of repeated
  calls on that stack return the absent result each time and still leave it as it was.
\<close>

theorem pop_on_empty_repeatable:
  assumes "empty s"
  shows "pop s = (None, s)
       \<and> fst (pop_out s v) = None \<and> snd (snd (pop_out s v)) = s
       \<and> run s (replicate n Pop) = (replicate n (Ret_pop None), s)
       \<and> fst (run s (map Pop_out vs)) = map (\<lambda>v. Ret_pop_out None v) vs
       \<and> snd (run s (map Pop_out vs)) = s"
proof -
  from assms have d: "data s = []" by (simp add: empty_def)
  have "run s (replicate n Pop) = (replicate n (Ret_pop None), s)"
    by (simp add: run_pops d)
  with d show ?thesis
    by (simp add: pop_Nil pop_out_Nil run_pop_outs_Nil)
qed

theorem pop_on_empty_repeatable_witness:
  "empty (\<lparr>data = []\<rparr> :: nat threadsafe_stack)
   \<and> pop (\<lparr>data = []\<rparr> :: nat threadsafe_stack) = (None, \<lparr>data = []\<rparr>)
   \<and> run (\<lparr>data = []\<rparr> :: nat threadsafe_stack) [Pop, Pop]
       = ([Ret_pop None, Ret_pop None], \<lparr>data = []\<rparr>)"
proof -
  have e: "empty (\<lparr>data = []\<rparr> :: nat threadsafe_stack)" by (simp add: empty_def)
  from pop_on_empty_repeatable [OF e, of 0 "Suc (Suc 0)" "[]"] e show ?thesis by simp
qed

section \<open>Emptiness and the balance of pushes and pops\<close>

lemma invoke_balance:
  "length (data (snd (invoke s c))) + (if pop_succeeded (fst (invoke s c)) then 1 else 0)
     = length (data s) + (if is_push c then 1 else 0)"
proof (cases c)
  case (Push v)
  then show ?thesis by (simp add: push_def)
next
  case (Emplace v)
  then show ?thesis by (simp add: emplace_def)
next
  case Pop
  then show ?thesis by (cases "data s") (simp_all add: pop_Nil pop_Cons)
next
  case (Pop_out v)
  then show ?thesis by (cases "data s") (simp_all add: pop_out_Nil pop_out_Cons)
next
  case Empty
  then show ?thesis by simp
qed

text \<open>
  From any starting content: what is stored at the end, plus what was popped, is
  what was there at the start plus what was pushed.
\<close>

lemma run_balance:
  "length (data (snd (run s cs))) + pops (fst (run s cs)) = length (data s) + pushes cs"
proof (induction cs arbitrary: s)
  case Nil
  show ?case by (simp add: pops_def pushes_def)
next
  case (Cons c cs)
  from Cons.IH [of "snd (invoke s c)"] invoke_balance [of s c]
  show ?case by (auto simp add: split_def pops_def pushes_def split: if_splits)
qed

text \<open>
  Claim C3. \<^verbatim>\<open>empty()\<close> is true on a default-constructed stack. Right after a push
  it is false, whatever the state before. After any sequence of calls on a
  default-constructed stack the successful pops never outnumber the pushes, and
  \<^verbatim>\<open>empty()\<close> is true exactly when the two counts are equal: it stays false while
  fewer pops than pushes have succeeded and is true again once they are level.
\<close>

theorem empty_iff_pops_eq_pushes:
  "empty threadsafe_stack_default
   \<and> \<not> empty (push s v)
   \<and> pops (fst (run threadsafe_stack_default cs)) \<le> pushes cs
   \<and> empty (snd (run threadsafe_stack_default cs))
       = (pops (fst (run threadsafe_stack_default cs)) = pushes cs)"
  using run_balance [of threadsafe_stack_default cs]
  by (auto simp add: empty_def threadsafe_stack_default_def push_def)

section \<open>The two-way pop\<close>

text \<open>
  Claim C4. On a non-empty stack \<^verbatim>\<open>pop(out)\<close> removes the top element and delivers
  its value twice: the caller's object \<open>out\<close> and the content of the returned optional
  are both the former top. The optional is present exactly when the stack was not
  empty, that is, exactly when an element was taken.
\<close>

theorem pop_out_delivers_top:
  "(\<not> empty s \<longrightarrow> (\<exists>x xs. data s = x # xs \<and> pop_out s v = (Some x, x, s\<lparr>data := xs\<rparr>)))
   \<and> (fst (pop_out s v) \<noteq> None) = (\<not> empty s)"
  by (cases "data s") (simp_all add: empty_def pop_out_Nil pop_out_Cons)

theorem pop_out_delivers_top_witness:
  "\<not> empty \<lparr>data = [7, 8 :: nat]\<rparr>
   \<and> pop_out \<lparr>data = [7, 8 :: nat]\<rparr> 0 = (Some 7, 7, \<lparr>data = [8]\<rparr>)"
  using pop_out_delivers_top [of "\<lparr>data = [7, 8 :: nat]\<rparr>" 0]
  by (simp add: empty_def)

text \<open>
  Claim C10. On an empty stack \<^verbatim>\<open>pop(out)\<close> returns before the assignment: the
  caller's object keeps the value it had, the stack is as it was, and the result is
  absent.
\<close>

theorem pop_out_on_empty_keeps_out:
  assumes "empty s"
  shows "pop_out s v = (None, v, s)"
  using assms by (simp add: empty_def pop_out_def)

theorem pop_out_on_empty_keeps_out_witness:
  "empty (\<lparr>data = []\<rparr> :: nat threadsafe_stack)
   \<and> pop_out (\<lparr>data = []\<rparr> :: nat threadsafe_stack) 42 = (None, 42, \<lparr>data = []\<rparr>)"
proof -
  have e: "empty (\<lparr>data = []\<rparr> :: nat threadsafe_stack)" by (simp add: empty_def)
  from pop_out_on_empty_keeps_out [OF e, of 42] e show ?thesis by simp
qed

section \<open>Size and top\<close>

text \<open>
  Claim C6. \<^verbatim>\<open>push(v)\<close> puts \<open>v\<close> on top of what was stored and the size grows by
  one. On a stack with top \<open>x\<close> above \<open>xs\<close>, \<^verbatim>\<open>pop()\<close> returns a handle to \<open>x\<close> and
  leaves exactly \<open>xs\<close>: the size shrinks by one and one occurrence of \<open>x\<close> has left
  the container.
\<close>

theorem push_pop_size:
  "data (push s v) = v # data s
   \<and> length (data (push s v)) = Suc (length (data s))
   \<and> (data s = x # xs \<longrightarrow>
        pop s = (Some (make_shared x), s\<lparr>data := xs\<rparr>)
        \<and> Suc (length (data (snd (pop s)))) = length (data s)
        \<and> mset (data (snd (pop s))) = mset (data s) - {#x#})"
  by (simp add: push_def pop_Cons)

theorem push_pop_size_witness:
  "data \<lparr>data = [3, 5 :: nat]\<rparr> = 3 # [5]
   \<and> pop \<lparr>data = [3, 5 :: nat]\<rparr> = (Some (make_shared 3), \<lparr>data = [5]\<rparr>)"
  using push_pop_size [of "\<lparr>data = [3, 5 :: nat]\<rparr>" 0 3 "[5]"]
  by simp

section \<open>emplace\<close>

text \<open>
  Claim C7. \<^verbatim>\<open>emplace(v)\<close> and \<^verbatim>\<open>push(v)\<close> lead from every state to the same
  state, and every sequence of calls that follows returns the same results and ends
  in the same state after either of them.
\<close>

theorem emplace_equiv_push:
  "emplace s v = push s v \<and> run s (Emplace v # cs) = run s (Push v # cs)"
  by (simp add: emplace_def push_def)

section \<open>Copy construction\<close>

lemma run_at_valid:
  "this < length st \<Longrightarrow>
   run_at st this cs = Some (fst (run (st ! this) cs), st[this := snd (run (st ! this) cs)])"
proof (induction cs arbitrary: st)
  case Nil
  then show ?case by simp
next
  case (Cons c cs)
  let ?st1 = "st[this := snd (invoke (st ! this) c)]"
  from Cons.prems have step: "invoke_at st this c = Some (fst (invoke (st ! this) c), ?st1)"
    by (simp add: invoke_at_def split_def)
  from Cons.prems have "this < length ?st1" by simp
  from Cons.IH [OF this] Cons.prems
  have "run_at ?st1 this cs =
          Some (fst (run (snd (invoke (st ! this) c)) cs),
                st[this := snd (run (snd (invoke (st ! this) c)) cs)])"
    by simp
  with step show ?case by (simp add: split_def)
qed

text \<open>
  Claim C5. Copy-constructing from an object \<open>a\<close> gives a new object \<open>b\<close>, distinct
  from \<open>a\<close>, that stores the same elements in the same order, and \<open>a\<close> is as it was.
  Whatever is then called on \<open>b\<close>, pops included, \<open>a\<close> stays as it was. Popping \<open>b\<close>
  \<open>n\<close> times returns the elements \<open>a\<close> holds, from its top down, and absent results
  once they are used up.
\<close>

theorem copy_is_independent_snapshot:
  assumes "a < length st"
  shows "\<exists>b st1. construct_copy st a = Some (b, st1) \<and> b \<noteq> a
           \<and> data (st1 ! b) = data (st ! a) \<and> st1 ! a = st ! a
           \<and> (\<forall>cs. \<exists>rs st2. run_at st1 b cs = Some (rs, st2) \<and> st2 ! a = st ! a)
           \<and> (\<forall>n. \<exists>st2. run_at st1 b (replicate n Pop) =
                  Some (map Ret_pop (map (\<lambda>x. Some (make_shared x)) (take n (data (st ! a)))
                                     @ replicate (n - length (data (st ! a))) None),
                        st2))"
proof -
  let ?b = "length st"
  let ?st1 = "st @ [threadsafe_stack_copy (st ! a)]"
  have c: "construct_copy st a = Some (?b, ?st1)"
    using assms by (simp add: construct_copy_def)
  have ne: "?b \<noteq> a" using assms by simp
  have d: "data (?st1 ! ?b) = data (st ! a)"
    by (simp add: threadsafe_stack_copy_def)
  have same: "?st1 ! a = st ! a"
    using assms by (simp add: nth_append)
  have valid: "?b < length ?st1" by simp
  have frame: "\<exists>rs st2. run_at ?st1 ?b cs = Some (rs, st2) \<and> st2 ! a = st ! a" for cs
    using run_at_valid [OF valid, of cs] assms by (simp add: nth_append)
  have order: "\<exists>st2. run_at ?st1 ?b (replicate n Pop) =
                  Some (map Ret_pop (map (\<lambda>x. Some (make_shared x)) (take n (data (st ! a)))
                                     @ replicate (n - length (data (st ! a))) None),
                        st2)" for n
    using run_at_valid [OF valid, of "replicate n Pop"]
    by (simp add: run_pops threadsafe_stack_copy_def)
  from c ne d same frame order show ?thesis by blast
qed

text \<open>The example of the specification: \<open>a\<close> holds 1, 2, 3 with 3 on top.\<close>

theorem copy_is_independent_snapshot_witness:
  "(0::nat) < length [\<lparr>data = [3, 2, 1 :: nat]\<rparr>]
   \<and> construct_copy [\<lparr>data = [3, 2, 1 :: nat]\<rparr>] 0
       = Some (1, [\<lparr>data = [3, 2, 1]\<rparr>, \<lparr>data = [3, 2, 1]\<rparr>])
   \<and> run_at [\<lparr>data = [3, 2, 1 :: nat]\<rparr>, \<lparr>data = [3, 2, 1]\<rparr>] 1 [Pop, Pop, Pop]
       = Some ([Ret_pop (Some (make_shared 3)), Ret_pop (Some (make_shared 2)),
                Ret_pop (Some (make_shared 1))],
               [\<lparr>data = [3, 2, 1]\<rparr>, \<lparr>data = []\<rparr>])"
proof -
  have h: "(0::nat) < length [\<lparr>data = [3, 2, 1 :: nat]\<rparr>]" by simp
  from copy_is_independent_snapshot [OF h] h show ?thesis
    by (simp add: construct_copy_def threadsafe_stack_copy_def invoke_at_def pop_def)
qed

section \<open>Conservation along one sequence of calls\<close>

text \<open>
  For calls made one after the other, from any starting content: the values popped
  together with the values still stored are the values stored at the start together
  with the values pushed, as multisets. Nothing is lost and nothing is duplicated.
\<close>

lemma invoke_conserves:
  "mset (popped_values (fst (invoke s c) # rs)) + mset (data (snd (invoke s c)))
     = mset (popped_values rs) + mset (data s) + mset (pushed_values [c])"
proof (cases c)
  case (Push v)
  then show ?thesis by (simp add: push_def)
next
  case (Emplace v)
  then show ?thesis by (simp add: emplace_def)
next
  case Pop
  then show ?thesis by (cases "data s") (simp_all add: pop_Nil pop_Cons)
next
  case (Pop_out v)
  then show ?thesis by (cases "data s") (simp_all add: pop_out_Nil pop_out_Cons)
next
  case Empty
  then show ?thesis by simp
qed

lemma popped_values_Cons:
  "mset (popped_values (r # rs)) = mset (popped_values [r]) + mset (popped_values rs)"
  by (cases "(r # rs)" rule: popped_values.cases) simp_all

lemma pushed_values_Cons:
  "mset (pushed_values (c # cs)) = mset (pushed_values [c]) + mset (pushed_values cs)"
  by (cases c) simp_all

lemma run_conserves:
  "mset (popped_values (fst (run s cs))) + mset (data (snd (run s cs)))
     = mset (data s) + mset (pushed_values cs)"
proof (induction cs arbitrary: s)
  case Nil
  show ?case by simp
next
  case (Cons c cs)
  let ?s1 = "snd (invoke s c)"
  let ?r = "fst (invoke s c)"
  have "mset (popped_values (fst (run s (c # cs)))) + mset (data (snd (run s (c # cs))))
        = mset (popped_values [?r])
          + (mset (popped_values (fst (run ?s1 cs))) + mset (data (snd (run ?s1 cs))))"
    by (simp add: split_def popped_values_Cons [of ?r "fst (run ?s1 cs)"])
  also have "\<dots> = mset (popped_values [?r]) + (mset (data ?s1) + mset (pushed_values cs))"
    by (simp only: Cons.IH)
  also have "\<dots> = (mset (popped_values (?r # [])) + mset (data ?s1)) + mset (pushed_values cs)"
    by simp
  also have "\<dots> = (mset (data s) + mset (pushed_values [c])) + mset (pushed_values cs)"
    by (simp only: invoke_conserves [of s c "[]"]) simp
  also have "\<dots> = mset (data s) + mset (pushed_values (c # cs))"
    by (simp add: pushed_values_Cons [of c cs])
  finally show ?case .
qed

end
